theory Spec2Isabelle
  imports Main "HOL-Library.Word"
begin

section \<open>mserialize::string\_view: a shallow embedding\<close>

text \<open>
  The class \<^verbatim>\<open>mserialize::string_view\<close> of
  \<^verbatim>\<open>include/mserialize/string_view.hpp\<close> is a pair of a character pointer
  \<^verbatim>\<open>_ptr\<close> and a length \<^verbatim>\<open>_len\<close> of type \<^verbatim>\<open>std::size_t\<close>.
  Addresses and sizes are machine words of one width \<open>'w\<close>: addition and subtraction
  wrap around modulo \<open>2 ^ LENGTH('w)\<close>, as unsigned arithmetic in C++ does. A
  \<^verbatim>\<open>char\<close> is an \<open>8 word\<close>.

  The bytes a view refers to are not part of the view, so every operation that
  dereferences a pointer takes the memory as an argument: a partial map from addresses
  to bytes. Reading an address the map does not hold is undefined behaviour in C++; the
  model makes it the error \<open>invalid_read\<close>, so that a theorem stating a result also states
  that no such read happened. The exception \<^verbatim>\<open>std::out_of_range\<close> thrown by
  \<^verbatim>\<open>substr\<close> is the error \<open>out_of_range\<close>.
\<close>

subsection \<open>Memory, errors and the view\<close>

datatype error = out_of_range | invalid_read

type_synonym 'w heap = "'w word \<Rightarrow> 8 word option"

record (overloaded) ('w) string_view =
  ptr :: "'w word"
  len :: "'w word"

text \<open>\<^verbatim>\<open>static constexpr size_type npos = size_type(-1);\<close>\<close>

definition npos :: "'w::len word" where
  "npos = - 1"

text \<open>
  The default constructor: \<^verbatim>\<open>_ptr = nullptr\<close>, \<^verbatim>\<open>_len = 0\<close>. The null
  pointer is the address 0.
\<close>

definition string_view_default :: "('w::len) string_view" where
  "string_view_default = \<lparr>ptr = 0, len = 0\<rparr>"

text \<open>\<^verbatim>\<open>constexpr string_view(const char* str, size_type len)\<close>\<close>

definition string_view_of_range :: "'w word \<Rightarrow> 'w word \<Rightarrow> ('w::len) string_view" where
  "string_view_of_range str n = \<lparr>ptr = str, len = n\<rparr>"

text \<open>
  Modelled from the spec: \<^verbatim>\<open>std::string\<close> is the standard library's owning string, not
  code of this repository. The model keeps what the view's constructor and
  \<^verbatim>\<open>to_string\<close> use: the address \<^verbatim>\<open>data()\<close> of its buffer and its
  contents, a list of bytes; \<^verbatim>\<open>size()\<close> is the number of bytes as a
  \<^verbatim>\<open>size_t\<close>. The string is laid out in a memory when each byte of its contents
  is stored at its offset from \<^verbatim>\<open>data()\<close>, and its length fits the size type.
\<close>

record (overloaded) ('w) std_string =
  str_data :: "'w word"
  contents :: "8 word list"

definition str_size :: "('w::len) std_string \<Rightarrow> 'w word" where
  "str_size s = of_nat (length (contents s))"

definition stored :: "('w::len) heap \<Rightarrow> 'w std_string \<Rightarrow> bool" where
  "stored h s \<longleftrightarrow>
     length (contents s) < 2 ^ LENGTH('w) \<and>
     list_all (\<lambda>i. h (str_data s + of_nat i) = Some (contents s ! i)) [0..<length (contents s)]"

text \<open>\<^verbatim>\<open>string_view(const std::string& str) : _ptr(str.data()), _len(str.size())\<close>\<close>

definition string_view_of_string :: "('w::len) std_string \<Rightarrow> 'w string_view" where
  "string_view_of_string str = \<lparr>ptr = str_data str, len = str_size str\<rparr>"

subsection \<open>Iterators, capacity, accessors\<close>

definition begin_sv :: "('w::len) string_view \<Rightarrow> 'w word" where
  "begin_sv v = ptr v"

definition cbegin :: "('w::len) string_view \<Rightarrow> 'w word" where
  "cbegin v = ptr v"

definition end_sv :: "('w::len) string_view \<Rightarrow> 'w word" where
  "end_sv v = ptr v + len v"

definition cend :: "('w::len) string_view \<Rightarrow> 'w word" where
  "cend v = ptr v + len v"

definition size_sv :: "('w::len) string_view \<Rightarrow> 'w word" where
  "size_sv v = len v"

definition empty_sv :: "('w::len) string_view \<Rightarrow> bool" where
  "empty_sv v \<longleftrightarrow> len v = 0"

definition data_sv :: "('w::len) string_view \<Rightarrow> 'w word" where
  "data_sv v = ptr v"

subsection \<open>Reading memory\<close>

text \<open>
  \<open>read_bytes h p n\<close> reads the \<open>n\<close> bytes at \<open>p\<close>, \<open>p + 1\<close>, \<dots> in order; it is
  \<open>None\<close> when one of them is not readable. A view is \<open>valid\<close> in a memory when
  all of \<^verbatim>\<open>[_ptr, _ptr + _len)\<close> is readable: the contract every view is supposed
  to meet, which the class never checks.
\<close>

fun read_bytes :: "('w::len) heap \<Rightarrow> 'w word \<Rightarrow> nat \<Rightarrow> 8 word list option" where
  "read_bytes h p 0 = Some []"
| "read_bytes h p (Suc n) =
     (case h p of
        None \<Rightarrow> None
      | Some b \<Rightarrow> (case read_bytes h (p + 1) n of None \<Rightarrow> None | Some bs \<Rightarrow> Some (b # bs)))"

definition valid :: "('w::len) heap \<Rightarrow> 'w string_view \<Rightarrow> bool" where
  "valid h v \<longleftrightarrow> read_bytes h (ptr v) (unat (len v)) \<noteq> None"

text \<open>\<^verbatim>\<open>operator[](size_type pos)\<close>: \<^verbatim>\<open>_ptr[pos]\<close>, unchecked.\<close>

definition at :: "('w::len) heap \<Rightarrow> 'w string_view \<Rightarrow> 'w word \<Rightarrow> error + 8 word" where
  "at h v pos = (case h (ptr v + pos) of None \<Rightarrow> Inl invalid_read | Some b \<Rightarrow> Inr b)"

text \<open>
  Modelled from the spec: \<^verbatim>\<open>std::char_traits<char>::compare(s1, s2, n)\<close> is the
  standard library's, not code of this repository. It requires both ranges of \<open>n\<close>
  characters to be readable and compares them lexicographically as unsigned bytes:
  negative, zero or positive; with \<open>n = 0\<close> it reads nothing and returns zero.
\<close>

fun compare_bytes :: "8 word list \<Rightarrow> 8 word list \<Rightarrow> int" where
  "compare_bytes (a # as) (b # bs) =
     (if a < b then - 1 else if b < a then 1 else compare_bytes as bs)"
| "compare_bytes _ _ = 0"

definition compare :: "('w::len) heap \<Rightarrow> 'w word \<Rightarrow> 'w word \<Rightarrow> 'w word \<Rightarrow> error + int" where
  "compare h s1 s2 n =
     (case read_bytes h s1 (unat n) of
        None \<Rightarrow> Inl invalid_read
      | Some xs \<Rightarrow>
          (case read_bytes h s2 (unat n) of
             None \<Rightarrow> Inl invalid_read
           | Some ys \<Rightarrow> Inr (compare_bytes xs ys)))"

subsection \<open>Modifiers\<close>

text \<open>\<^verbatim>\<open>void clear() noexcept { _len = 0; }\<close>\<close>

definition clear :: "('w::len) string_view \<Rightarrow> 'w string_view" where
  "clear v = v\<lparr>len := 0\<rparr>"

text \<open>
  \<^verbatim>\<open>remove_prefix(n)\<close>: \<^verbatim>\<open>if (n > _len) { n = _len; } _ptr += n; _len -= n;\<close>
\<close>

definition remove_prefix :: "('w::len) string_view \<Rightarrow> 'w word \<Rightarrow> 'w string_view" where
  "remove_prefix v n =
     (let n = (if n > len v then len v else n)
      in v\<lparr>ptr := ptr v + n, len := len v - n\<rparr>)"

text \<open>\<^verbatim>\<open>remove_suffix(n)\<close>: \<^verbatim>\<open>if (n > _len) { n = _len; } _len -= n;\<close>\<close>

definition remove_suffix :: "('w::len) string_view \<Rightarrow> 'w word \<Rightarrow> 'w string_view" where
  "remove_suffix v n =
     (let n = (if n > len v then len v else n)
      in v\<lparr>len := len v - n\<rparr>)"

subsection \<open>String operations\<close>

text \<open>
  \<^verbatim>\<open>to_string\<close>: \<^verbatim>\<open>return std::string(begin(), end());\<close> The new string owns a
  copy of the bytes between the two iterators; the result is its contents.
\<close>

definition to_string :: "('w::len) heap \<Rightarrow> 'w string_view \<Rightarrow> error + 8 word list" where
  "to_string h v =
     (case read_bytes h (begin_sv v) (unat (end_sv v - begin_sv v)) of
        None \<Rightarrow> Inl invalid_read
      | Some bs \<Rightarrow> Inr bs)"

text \<open>
  \<^verbatim>\<open>substr(pos, n)\<close>: throws when \<^verbatim>\<open>pos > size()\<close>; then
  \<^verbatim>\<open>if (n == npos || pos + n > size()) { n = size() - pos; }\<close> and the result is
  \<^verbatim>\<open>string_view(data() + pos, n)\<close>. The sum \<^verbatim>\<open>pos + n\<close> is a
  \<^verbatim>\<open>size_t\<close> and wraps.
\<close>

definition substr :: "('w::len) string_view \<Rightarrow> 'w word \<Rightarrow> 'w word \<Rightarrow> error + 'w string_view" where
  "substr v pos n =
     (if pos > size_sv v then Inl out_of_range
      else
        (let n = (if n = npos \<or> pos + n > size_sv v then size_sv v - pos else n)
         in Inr (string_view_of_range (data_sv v + pos) n)))"

subsection \<open>Searches\<close>

text \<open>
  \<^verbatim>\<open>starts_with(string_view x)\<close>:
  \<^verbatim>\<open>_len >= x._len && compare(_ptr, x._ptr, x._len) == 0\<close>; the right operand of
  \<^verbatim>\<open>&&\<close> is evaluated only when the left one holds.
\<close>

definition starts_with :: "('w::len) heap \<Rightarrow> 'w string_view \<Rightarrow> 'w string_view \<Rightarrow> error + bool" where
  "starts_with h v x =
     (if len v \<ge> len x
      then (case compare h (ptr v) (ptr x) (len x) of Inl e \<Rightarrow> Inl e | Inr c \<Rightarrow> Inr (c = 0))
      else Inr False)"

text \<open>
  The private \<^verbatim>\<open>search(first, last, s_first, s_last)\<close> is two nested loops without
  a condition. The inner loop walks \<^verbatim>\<open>it\<close> and \<^verbatim>\<open>s_it\<close> together and leaves in
  one of three ways: \<^verbatim>\<open>return first\<close> when the needle is used up,
  \<^verbatim>\<open>return last\<close> when the haystack is, \<^verbatim>\<open>break\<close> at the first byte that
  differs. \<open>Return\<close> and \<open>Break\<close> are these exits; the outer loop goes on with
  \<^verbatim>\<open>++first\<close> after a \<open>Break\<close>.
\<close>

text \<open>Stepping an iterator that has not reached the end brings it closer to the end.\<close>

lemma unat_sub_succ: "(it :: 'w::len word) \<noteq> e \<Longrightarrow> unat (e - (it + 1)) = unat (e - it) - 1"
proof -
  assume "it \<noteq> e"
  then have nz: "e - it \<noteq> 0"
    by simp
  have eq: "e - (it + 1) = (e - it) - 1"
    by simp
  have "unat ((e - it) - 1) = unat (e - it) - 1"
    using nz by (rule unat_minus_one)
  then show ?thesis
    unfolding eq .
qed

lemma unat_sub_succ_less: "(it :: 'w::len word) \<noteq> e \<Longrightarrow> unat (e - (it + 1)) < unat (e - it)"
proof -
  assume ne: "it \<noteq> e"
  then have "unat (e - it) \<noteq> 0"
    by (simp add: unat_eq_zero)
  then show ?thesis
    using unat_sub_succ [OF ne] by simp
qed

datatype 'a loop_exit = Return 'a | Break

function search_inner ::
  "('w::len) heap \<Rightarrow> 'w word \<Rightarrow> 'w word \<Rightarrow> 'w word \<Rightarrow> 'w word \<Rightarrow> 'w word \<Rightarrow> error + 'w word loop_exit" where
  "search_inner h first last' s_last it s_it =
     (if s_it = s_last then Inr (Return first)
      else if it = last' then Inr (Return last')
      else
        (case h it of
           None \<Rightarrow> Inl invalid_read
         | Some a \<Rightarrow>
             (case h s_it of
                None \<Rightarrow> Inl invalid_read
              | Some b \<Rightarrow>
                  if a \<noteq> b then Inr Break
                  else search_inner h first last' s_last (it + 1) (s_it + 1))))"
  by pat_completeness auto
termination
  by (relation "measure (\<lambda>(h, first, last', s_last, it, s_it). unat (last' - it))")
    (simp_all add: unat_sub_succ_less)

declare search_inner.simps [simp del]

text \<open>The inner loop leaves by \<^verbatim>\<open>break\<close> only after it has looked at a byte of the haystack.\<close>

lemma search_inner_Break_first_ne:
  "search_inner h first last' s_last first s_it = Inr Break \<Longrightarrow> first \<noteq> last'"
  by (subst (asm) search_inner.simps) (auto split: if_splits)

function search ::
  "('w::len) heap \<Rightarrow> 'w word \<Rightarrow> 'w word \<Rightarrow> 'w word \<Rightarrow> 'w word \<Rightarrow> error + 'w word" where
  "search h first last' s_first s_last =
     (case search_inner h first last' s_last first s_first of
        Inl e \<Rightarrow> Inl e
      | Inr (Return r) \<Rightarrow> Inr r
      | Inr Break \<Rightarrow> search h (first + 1) last' s_first s_last)"
  by pat_completeness auto
termination
  by (relation "measure (\<lambda>(h, first, last', s_first, s_last). unat (last' - first))")
    (simp_all add: unat_sub_succ_less search_inner_Break_first_ne)

declare search.simps [simp del]

text \<open>
  \<^verbatim>\<open>find(string_view s, size_type pos)\<close>: \<^verbatim>\<open>npos\<close> when
  \<^verbatim>\<open>pos > size()\<close>, \<^verbatim>\<open>pos\<close> when \<^verbatim>\<open>s\<close> is empty, else the iterator
  \<^verbatim>\<open>search\<close> returns, as an offset from \<^verbatim>\<open>cbegin()\<close>, or \<^verbatim>\<open>npos\<close> when
  it is \<^verbatim>\<open>cend()\<close>.
\<close>

definition find_sv :: "('w::len) heap \<Rightarrow> 'w string_view \<Rightarrow> 'w string_view \<Rightarrow> 'w word \<Rightarrow> error + 'w word" where
  "find_sv h v s pos =
     (if pos > size_sv v then Inr npos
      else if empty_sv s then Inr pos
      else
        (case search h (cbegin v + pos) (cend v) (cbegin s) (cend s) of
           Inl e \<Rightarrow> Inl e
         | Inr iter \<Rightarrow> Inr (if iter = cend v then npos else iter - cbegin v)))"

subsection \<open>Comparison operators\<close>

text \<open>
  \<^verbatim>\<open>operator==\<close>: \<^verbatim>\<open>if (x.size() != y.size()) { return false; }\<close> and then
  \<^verbatim>\<open>compare(x.data(), y.data(), x.size()) == 0\<close>;
  \<^verbatim>\<open>operator!=\<close> is \<^verbatim>\<open>!(x == y)\<close>.
\<close>

definition op_eq :: "('w::len) heap \<Rightarrow> 'w string_view \<Rightarrow> 'w string_view \<Rightarrow> error + bool" where
  "op_eq h x y =
     (if size_sv x \<noteq> size_sv y then Inr False
      else (case compare h (data_sv x) (data_sv y) (size_sv x) of
              Inl e \<Rightarrow> Inl e
            | Inr c \<Rightarrow> Inr (c = 0)))"

definition op_ne :: "('w::len) heap \<Rightarrow> 'w string_view \<Rightarrow> 'w string_view \<Rightarrow> error + bool" where
  "op_ne h x y = (case op_eq h x y of Inl e \<Rightarrow> Inl e | Inr b \<Rightarrow> Inr (\<not> b))"

subsection \<open>Occurrences of a needle\<close>

text \<open>
  The needle \<open>s\<close> occurs in \<open>v\<close> at the offset \<open>r\<close> when it fits,
  \<open>r + s.size() \<le> v.size()\<close> as natural numbers, and each of its bytes is the byte
  of \<open>v\<close> at the same distance from \<open>r\<close>.
\<close>

definition occurs_at :: "('w::len) heap \<Rightarrow> 'w string_view \<Rightarrow> 'w string_view \<Rightarrow> nat \<Rightarrow> bool" where
  "occurs_at h v s r \<longleftrightarrow>
     r + unat (size_sv s) \<le> unat (size_sv v) \<and>
     (\<forall>j<unat (size_sv s). at h v (of_nat (r + j)) = at h s (of_nat j))"

subsection \<open>Memories for concrete runs\<close>

text \<open>
  \<open>heap_of base bs\<close> is the memory that holds the bytes \<open>bs\<close> from the address
  \<open>base\<close> on and nothing else.
\<close>

definition heap_of :: "'w word \<Rightarrow> 8 word list \<Rightarrow> ('w::len) heap" where
  "heap_of base bs = (\<lambda>a. if unat (a - base) < length bs then Some (bs ! unat (a - base)) else None)"

text \<open>
  A 64-bit memory with three strings in separate buffers, views over them, and an owning
  string in the third buffer, for running the operations on concrete inputs.
\<close>

definition bytes_of :: "string \<Rightarrow> 8 word list" where
  "bytes_of s = map of_char s"

definition example_heap :: "64 heap" where
  "example_heap =
     heap_of 4096 (bytes_of ''hello world'') ++
     heap_of 8192 (bytes_of ''world'') ++
     heap_of 12288 (bytes_of ''hello'')"

definition hello_world :: "64 string_view" where
  "hello_world = string_view_of_range 4096 11"

definition world :: "64 string_view" where
  "world = string_view_of_range 8192 5"

definition hello :: "64 string_view" where
  "hello = string_view_of_range 12288 5"

definition hello_string :: "64 std_string" where
  "hello_string = \<lparr>str_data = 12288, contents = bytes_of ''hello''\<rparr>"

section \<open>Facts about the memory model\<close>

lemma read_bytes_Some_iff:
  "read_bytes h p n = Some bs \<longleftrightarrow>
     length bs = n \<and> (\<forall>i<n. h (p + of_nat i) = Some (bs ! i))"
proof (induction n arbitrary: p bs)
  case 0
  then show ?case by auto
next
  case (Suc n)
  show ?case
  proof (cases bs)
    case Nil
    then show ?thesis by (auto split: option.splits)
  next
    case (Cons b bs')
    have shift: "(\<forall>i<Suc n. h (p + of_nat i) = Some ((b # bs') ! i)) \<longleftrightarrow>
          h p = Some b \<and> (\<forall>i<n. h (p + 1 + of_nat i) = Some (bs' ! i))"
      by (auto simp: All_less_Suc2 ac_simps)
    show ?thesis
      unfolding Cons shift using Suc.IH [of "p + 1" bs']
      by (auto split: option.splits)
  qed
qed

lemma read_bytes_None_iff:
  "read_bytes h p n = None \<longleftrightarrow> (\<exists>i<n. h (p + of_nat i) = None)"
proof (induction n arbitrary: p)
  case 0
  then show ?case by simp
next
  case (Suc n)
  have shift: "(\<exists>i<Suc n. h (p + of_nat i) = None) \<longleftrightarrow>
        h p = None \<or> (\<exists>i<n. h (p + 1 + of_nat i) = None)"
    by (auto simp: Ex_less_Suc2 ac_simps)
  show ?case
    unfolding shift using Suc.IH [of "p + 1"]
    by (auto split: option.splits)
qed

lemma valid_iff: "valid h v \<longleftrightarrow> (\<forall>i<unat (len v). h (ptr v + of_nat i) \<noteq> None)"
  by (auto simp: valid_def read_bytes_None_iff)

lemma compare_bytes_eq_0: "length xs = length ys \<Longrightarrow> compare_bytes xs ys = 0 \<longleftrightarrow> xs = ys"
  by (induction xs ys rule: compare_bytes.induct) auto


lemma word_index_all:
  "(\<forall>i<unat (n :: 'w::len word). P (of_nat i :: 'w word)) \<longleftrightarrow> (\<forall>i. i < n \<longrightarrow> P i)"
proof
  assume L: "\<forall>i<unat n. P (of_nat i)"
  show "\<forall>i. i < n \<longrightarrow> P i"
  proof (intro allI impI)
    fix i :: "'w word"
    assume "i < n"
    then have "unat i < unat n"
      by (simp add: word_less_nat_alt)
    with L have "P (of_nat (unat i))"
      by blast
    then show "P i"
      by simp
  qed
next
  assume R: "\<forall>i. i < n \<longrightarrow> P i"
  show "\<forall>i<unat n. P (of_nat i)"
  proof (intro allI impI)
    fix i :: nat
    assume "i < unat n"
    then have "unat (of_nat i :: 'w word) = i"
      using le_unat_uoi [of i n] by simp
    with \<open>i < unat n\<close> have "(of_nat i :: 'w word) < n"
      by (simp add: word_less_nat_alt)
    with R show "P (of_nat i)"
      by blast
  qed
qed

lemma valid_at:
  "valid h v \<Longrightarrow> i < size_sv v \<Longrightarrow> \<exists>b. h (ptr v + i) = Some b"
proof -
  assume "valid h v" and "i < size_sv v"
  then have "\<forall>i<unat (len v). h (ptr v + of_nat i) \<noteq> None"
    by (simp add: valid_iff)
  then have "\<forall>i. i < len v \<longrightarrow> h (ptr v + i) \<noteq> None"
    by (simp only: word_index_all [where P = "\<lambda>i. h (ptr v + i) \<noteq> None"])
  with \<open>i < size_sv v\<close> show ?thesis
    by (auto simp: size_sv_def)
qed

lemma valid_prefix:
  "valid h v \<Longrightarrow> n \<le> len v \<Longrightarrow> \<exists>bs. read_bytes h (ptr v) (unat n) = Some bs"
proof -
  assume "valid h v" and "n \<le> len v"
  then have "\<forall>i<unat n. h (ptr v + of_nat i) \<noteq> None"
    by (auto simp: valid_iff word_le_nat_alt)
  then have "read_bytes h (ptr v) (unat n) \<noteq> None"
    by (auto simp: read_bytes_None_iff)
  then show ?thesis
    by auto
qed

lemma compare_valid:
  assumes "read_bytes h p (unat n) = Some xs" and "read_bytes h q (unat n) = Some ys"
  shows "compare h p q n = Inr (compare_bytes xs ys)"
    and "compare_bytes xs ys = 0 \<longleftrightarrow> (\<forall>i. i < n \<longrightarrow> h (p + i) = h (q + i))"
proof -
  show "compare h p q n = Inr (compare_bytes xs ys)"
    using assms by (simp add: compare_def)
  have lx: "length xs = unat n" and ax: "\<forall>i<unat n. h (p + of_nat i) = Some (xs ! i)"
    using assms(1) by (simp_all add: read_bytes_Some_iff)
  have ly: "length ys = unat n" and ay: "\<forall>i<unat n. h (q + of_nat i) = Some (ys ! i)"
    using assms(2) by (simp_all add: read_bytes_Some_iff)
  have "compare_bytes xs ys = 0 \<longleftrightarrow> xs = ys"
    using lx ly by (simp add: compare_bytes_eq_0)
  also have "\<dots> \<longleftrightarrow> (\<forall>i<unat n. xs ! i = ys ! i)"
    using lx ly by (auto simp: list_eq_iff_nth_eq)
  also have "\<dots> \<longleftrightarrow> (\<forall>i<unat n. h (p + of_nat i) = h (q + of_nat i))"
    using ax ay by auto
  also have "\<dots> \<longleftrightarrow> (\<forall>i. i < n \<longrightarrow> h (p + i) = h (q + i))"
    by (rule word_index_all [where P = "\<lambda>i. h (p + i) = h (q + i)"])
  finally show "compare_bytes xs ys = 0 \<longleftrightarrow> (\<forall>i. i < n \<longrightarrow> h (p + i) = h (q + i))" .
qed

lemma at_eq_iff:
  "h (ptr x + i) \<noteq> None \<Longrightarrow> at h x i = at h y i \<longleftrightarrow> h (ptr x + i) = h (ptr y + i)"
  by (auto simp: at_def split: option.splits)

subsection \<open>Running on concrete views\<close>

text \<open>Reading a number of bytes given as a numeral, one byte at a time.\<close>

lemma read_bytes_numeral:
  "read_bytes h p (numeral k) =
     (case h p of
        None \<Rightarrow> None
      | Some b \<Rightarrow> (case read_bytes h (p + 1) (pred_numeral k) of None \<Rightarrow> None | Some bs \<Rightarrow> Some (b # bs)))"
  by (simp add: numeral_eq_Suc)

lemmas example_defs =
  example_heap_def hello_world_def world_def hello_def string_view_of_range_def
  heap_of_def bytes_of_def map_add_def

lemma valid_hello_world: "valid example_heap hello_world"
  by (simp add: valid_def example_defs read_bytes_numeral)

lemma valid_world: "valid example_heap world"
  by (simp add: valid_def example_defs read_bytes_numeral)

lemma valid_hello: "valid example_heap hello"
  by (simp add: valid_def example_defs read_bytes_numeral)

section \<open>The claims\<close>

text \<open>
  C9. \<^verbatim>\<open>clear()\<close> sets the length to 0 and leaves the data pointer as it was:
  only \<^verbatim>\<open>_len\<close> changes. It neither takes nor returns the memory, so the
  referenced bytes are untouched, and \<^verbatim>\<open>operator[]\<close> on the cleared view reads the
  byte it read before at every offset, in every memory.
\<close>

theorem clear_frame:
  "len (clear v) = 0 \<and> size_sv (clear v) = 0 \<and> empty_sv (clear v) \<and>
   ptr (clear v) = ptr v \<and> data_sv (clear v) = data_sv v \<and>
   (\<forall>h i. at h (clear v) i = at h v i)"
  by (simp add: clear_def size_sv_def empty_sv_def data_sv_def at_def)

text \<open>
  C4. With an empty needle, \<^verbatim>\<open>find\<close> returns \<^verbatim>\<open>pos\<close> when
  \<^verbatim>\<open>pos <= size()\<close> and \<^verbatim>\<open>npos\<close> when \<^verbatim>\<open>pos > size()\<close>. No byte is read:
  the result does not depend on the memory, and the views need not be valid.
\<close>

theorem find_empty_needle:
  assumes "empty_sv s"
  shows "find_sv h v s pos = Inr (if pos \<le> size_sv v then pos else npos)"
  using assms by (auto simp: find_sv_def)

theorem find_empty_needle_witness:
  "empty_sv (clear world) \<and>
   find_sv example_heap hello_world (clear world) 3 = Inr 3 \<and>
   find_sv example_heap hello_world (clear world) 11 = Inr 11 \<and>
   find_sv example_heap hello_world (clear world) 12 = Inr npos"
proof -
  have e: "empty_sv (clear world)"
    by (simp add: empty_sv_def clear_def)
  show ?thesis
    using e find_empty_needle [OF e, of example_heap hello_world 3]
      find_empty_needle [OF e, of example_heap hello_world 11]
      find_empty_needle [OF e, of example_heap hello_world 12]
    by (simp add: size_sv_def hello_world_def string_view_of_range_def)
qed

subsection \<open>substr\<close>

text \<open>
  \<^verbatim>\<open>substr\<close> has one error, \<^verbatim>\<open>std::out_of_range\<close>, raised exactly when
  \<^verbatim>\<open>pos > size()\<close>, whatever the count is. It is a \<^verbatim>\<open>const\<close> member that
  returns a new view: the view it is called on is an argument of the model and is not
  returned, so it is unchanged on every path.
\<close>

lemma substr_out_of_range_iff:
  "(substr v pos n = Inl out_of_range) = (size_sv v < pos)"
  "(\<exists>e. substr v pos n = Inl e) = (size_sv v < pos)"
  "substr v pos n \<noteq> Inl invalid_read"
  by (auto simp: substr_def Let_def)

text \<open>
  When \<^verbatim>\<open>pos <= size()\<close> and the count is \<^verbatim>\<open>npos\<close>, or the sum
  \<^verbatim>\<open>pos + n\<close> does not overflow the size type, the result starts at offset
  \<^verbatim>\<open>pos\<close> and has \<^verbatim>\<open>min(n, size() - pos)\<close> bytes.
\<close>

lemma substr_no_wrap:
  fixes v :: "('w::len) string_view"
  assumes "pos \<le> size_sv v" and "n = npos \<or> unat pos + unat n < 2 ^ LENGTH('w)"
  shows "substr v pos n = Inr (string_view_of_range (data_sv v + pos) (min n (size_sv v - pos)))"
proof -
  have sub: "unat (size_sv v - pos) = unat (size_sv v) - unat pos"
    using assms(1) by (simp add: unat_sub)
  show ?thesis
  proof (cases "n = npos")
    case True
    have "size_sv v - pos \<le> npos"
      by (simp add: npos_def)
    then show ?thesis
      using True assms(1) by (simp add: substr_def Let_def min_def)
  next
    case False
    with assms(2) have "unat (pos + n) = unat pos + unat n"
      by (simp add: unat_add_lem)
    then have "pos + n > size_sv v \<longleftrightarrow> n > size_sv v - pos"
      using sub assms(1) by (auto simp: word_less_nat_alt word_le_nat_alt)
    then show ?thesis
      using False assms(1) by (auto simp: substr_def Let_def min_def)
  qed
qed

lemma substr_at_size_default:
  "substr v (size_sv v) npos = Inr (string_view_of_range (data_sv v + size_sv v) 0)"
  by (simp add: substr_def)

text \<open>
  C2. The claim: for \<^verbatim>\<open>pos <= size()\<close> and every count \<open>n\<close>, \<^verbatim>\<open>substr(pos, n)\<close>
  has exactly \<^verbatim>\<open>min(n, size() - pos)\<close> bytes. The code tests
  \<^verbatim>\<open>pos + n > size()\<close> on the wrapped sum, so a large count other than
  \<^verbatim>\<open>npos\<close> passes the test unclamped. On the 5-byte view \<open>hello\<close> with
  \<open>pos = 3\<close> and \<open>n = npos - 1\<close>, the sum wraps to 1, and the result is a view of
  \<open>npos - 1\<close> bytes, where the claim says 2.
\<close>

theorem substr_count_wraps:
  "substr hello 3 (npos - 1) = Inr (string_view_of_range (data_sv hello + 3) (npos - 1)) \<and>
   (3 :: 64 word) \<le> size_sv hello \<and>
   (3 :: 64 word) + (npos - 1) = 1 \<and>
   min (npos - 1) (size_sv hello - 3) = 2 \<and>
   npos - 1 \<noteq> (2 :: 64 word)"
  by (simp add: substr_def hello_def string_view_of_range_def npos_def size_sv_def data_sv_def)

text \<open>
  C3. The claim: \<^verbatim>\<open>substr(pos, n)\<close> raises the out-of-range error exactly when
  \<^verbatim>\<open>pos > size()\<close>, and for \<^verbatim>\<open>pos == size()\<close> it returns an empty view. The
  first part holds (\<open>substr_out_of_range_iff\<close>), and so does the second for the
  default count and for every count whose sum with \<open>pos\<close> does not wrap
  (\<open>substr_at_size_default\<close>, \<open>substr_no_wrap\<close>). For a count that wraps it
  fails: on the 5-byte view \<open>hello\<close> with \<open>pos = 5 = size()\<close> and \<open>n = npos - 2\<close>
  the sum wraps to 2, no error is raised, and the result has \<open>npos - 2\<close> bytes.
\<close>

theorem substr_at_size_count_wraps:
  "substr hello (size_sv hello) (npos - 2) =
     Inr (string_view_of_range (data_sv hello + size_sv hello) (npos - 2)) \<and>
   size_sv hello + (npos - 2) = (2 :: 64 word) \<and>
   size_sv (string_view_of_range (data_sv hello + size_sv hello) (npos - 2)) \<noteq> (0 :: 64 word)"
  by (simp add: substr_def hello_def string_view_of_range_def npos_def size_sv_def data_sv_def)

subsection \<open>remove\_prefix\<close>

text \<open>
  C5. The claim: \<^verbatim>\<open>remove_prefix(n)\<close> followed by \<^verbatim>\<open>remove_prefix(m)\<close> equals
  \<^verbatim>\<open>remove_prefix(n + m)\<close>, with \<open>n + m\<close> computed in the size type. It fails
  when the sum wraps: on the 5-byte view \<open>hello\<close>, removing \<open>npos\<close> and then 2 leaves
  nothing, while \<open>npos + 2\<close> is 1 and removing 1 leaves 4 bytes.
\<close>

theorem remove_prefix_sum_wraps:
  "remove_prefix (remove_prefix hello npos) 2 \<noteq> remove_prefix hello (npos + 2)"
  by (simp add: remove_prefix_def Let_def hello_def string_view_of_range_def npos_def)

text \<open>
  C5, amended. Two calls remove \<open>min (n + m) size\<close> bytes, where \<open>n + m\<close> is the
  sum of the two counts as natural numbers; when that sum fits the size type, this is
  what one call of \<^verbatim>\<open>remove_prefix(n + m)\<close> does, and the two views have the same
  pointer and the same length.
\<close>

theorem remove_prefix_twice:
  fixes v :: "('w::len) string_view"
  shows
    "ptr (remove_prefix (remove_prefix v n) m) =
       ptr v + of_nat (min (unat n + unat m) (unat (len v))) \<and>
     len (remove_prefix (remove_prefix v n) m) =
       len v - of_nat (min (unat n + unat m) (unat (len v))) \<and>
     (unat n + unat m < 2 ^ LENGTH('w) \<longrightarrow>
        remove_prefix (remove_prefix v n) m = remove_prefix v (n + m))"
proof (intro conjI impI)
  let ?k = "min (unat n + unat m) (unat (len v))"
  have fields: "ptr (remove_prefix (remove_prefix v n) m) = ptr v + of_nat ?k \<and>
      len (remove_prefix (remove_prefix v n) m) = len v - of_nat ?k"
  proof (cases "n > len v")
    case True
    then have "?k = unat (len v)"
      by (simp add: word_less_nat_alt)
    with True show ?thesis
      by (auto simp: remove_prefix_def Let_def word_gt_0)
  next
    case False
    then have le: "n \<le> len v" by simp
    then have sub: "unat (len v - n) = unat (len v) - unat n"
      by (simp add: unat_sub)
    show ?thesis
    proof (cases "m > len v - n")
      case True
      then have "?k = unat (len v)"
        using sub le by (simp add: word_less_nat_alt word_le_nat_alt)
      with True False show ?thesis
        by (simp add: remove_prefix_def Let_def)
    next
      case m: False
      then have "?k = unat n + unat m"
        using sub le by (simp add: word_less_nat_alt word_le_nat_alt)
      with m False show ?thesis
        by (simp add: remove_prefix_def Let_def ac_simps)
    qed
  qed
  from fields show "ptr (remove_prefix (remove_prefix v n) m) = ptr v + of_nat ?k"
    by simp
  from fields show "len (remove_prefix (remove_prefix v n) m) = len v - of_nat ?k"
    by simp
  assume fits: "unat n + unat m < 2 ^ LENGTH('w)"
  then have sum: "unat (n + m) = unat n + unat m"
    by (simp add: unat_add_lem)
  have "of_nat ?k = (if n + m > len v then len v else n + m)"
    using sum by (auto simp: word_less_nat_alt min_def)
  then have "ptr (remove_prefix v (n + m)) = ptr v + of_nat ?k"
    and "len (remove_prefix v (n + m)) = len v - of_nat ?k"
    by (simp_all add: remove_prefix_def Let_def)
  with fields show "remove_prefix (remove_prefix v n) m = remove_prefix v (n + m)"
    by (simp add: remove_prefix_def Let_def)
qed

theorem remove_prefix_twice_witness:
  "unat (2 :: 64 word) + unat (1 :: 64 word) < 2 ^ LENGTH(64) \<and>
   remove_prefix (remove_prefix hello 2) 1 = remove_prefix hello (2 + 1) \<and>
   remove_prefix (remove_prefix hello 2) 1 = string_view_of_range (12288 + 3) 2 \<and>
   len (remove_prefix (remove_prefix hello 4) 3) = 0"
  using remove_prefix_twice [of hello 2 1] remove_prefix_twice [of hello 4 3]
  by (simp add: remove_prefix_def Let_def hello_def string_view_of_range_def)

subsection \<open>Equality\<close>

lemma op_eq_valid:
  assumes "valid h x" and "valid h y"
  shows "op_eq h x y =
     Inr (size_sv x = size_sv y \<and> (\<forall>i. i < size_sv x \<longrightarrow> at h x i = at h y i))"
proof (cases "size_sv x = size_sv y")
  case False
  then show ?thesis
    by (simp add: op_eq_def)
next
  case True
  then have ll: "len y = len x"
    by (simp add: size_sv_def)
  obtain xs where xs: "read_bytes h (ptr x) (unat (len x)) = Some xs"
    using assms(1) by (auto simp: valid_def)
  obtain ys where ys: "read_bytes h (ptr y) (unat (len x)) = Some ys"
    using assms(2) ll by (auto simp: valid_def)
  have "(\<forall>i. i < len x \<longrightarrow> h (ptr x + i) = h (ptr y + i)) \<longleftrightarrow>
        (\<forall>i. i < len x \<longrightarrow> at h x i = at h y i)"
    using valid_at [OF assms(1)] by (auto simp: at_eq_iff size_sv_def)
  then show ?thesis
    using True compare_valid [OF xs ys]
    by (simp add: op_eq_def size_sv_def data_sv_def)
qed

lemma op_eq_empty: "size_sv x = 0 \<Longrightarrow> size_sv y = 0 \<Longrightarrow> op_eq h x y = Inr True"
  by (simp add: op_eq_def compare_def)

text \<open>
  C6. For valid views, \<^verbatim>\<open>operator==\<close> returns true exactly when the sizes are equal
  and the bytes at every offset below the size are equal; the pointers do not occur in the
  result. \<^verbatim>\<open>operator!=\<close> returns the negation. So equality is reflexive and
  symmetric, and views of equal size and equal bytes are equal wherever their bytes are
  stored.
\<close>

theorem op_eq_content:
  assumes "valid h x" and "valid h y"
  shows
    "op_eq h x y =
       Inr (size_sv x = size_sv y \<and> (\<forall>i. i < size_sv x \<longrightarrow> at h x i = at h y i)) \<and>
     op_ne h x y =
       Inr (\<not> (size_sv x = size_sv y \<and> (\<forall>i. i < size_sv x \<longrightarrow> at h x i = at h y i))) \<and>
     op_eq h x x = Inr True \<and>
     op_eq h x y = op_eq h y x \<and>
     (ptr x \<noteq> ptr y \<and> size_sv x = size_sv y \<and> (\<forall>i. i < size_sv x \<longrightarrow> at h x i = at h y i)
        \<longrightarrow> op_eq h x y = Inr True)"
proof (intro conjI impI)
  note xy = op_eq_valid [OF assms]
  note yx = op_eq_valid [OF assms(2) assms(1)]
  note xx = op_eq_valid [OF assms(1) assms(1)]
  show "op_eq h x y =
      Inr (size_sv x = size_sv y \<and> (\<forall>i. i < size_sv x \<longrightarrow> at h x i = at h y i))"
    by (rule xy)
  show "op_ne h x y =
      Inr (\<not> (size_sv x = size_sv y \<and> (\<forall>i. i < size_sv x \<longrightarrow> at h x i = at h y i)))"
    unfolding op_ne_def xy by simp
  show "op_eq h x x = Inr True"
    unfolding xx by simp
  show "op_eq h x y = op_eq h y x"
    unfolding xy yx by auto
  assume "ptr x \<noteq> ptr y \<and> size_sv x = size_sv y \<and>
      (\<forall>i. i < size_sv x \<longrightarrow> at h x i = at h y i)"
  then show "op_eq h x y = Inr True"
    unfolding xy by simp
qed

theorem op_eq_content_witness:
  "valid example_heap hello \<and>
   valid example_heap (remove_suffix hello_world 6) \<and>
   ptr hello \<noteq> ptr (remove_suffix hello_world 6) \<and>
   op_eq example_heap hello (remove_suffix hello_world 6) = Inr True \<and>
   op_eq example_heap (remove_suffix hello_world 6) hello = Inr True \<and>
   op_ne example_heap hello (remove_suffix hello_world 6) = Inr False \<and>
   op_eq example_heap hello hello = Inr True \<and>
   op_eq example_heap hello world = Inr False \<and>
   op_eq example_heap hello hello_world = Inr False"
proof -
  have v1: "valid example_heap hello"
    by (rule valid_hello)
  have v2: "valid example_heap (remove_suffix hello_world 6)"
    by (simp add: valid_def remove_suffix_def Let_def example_defs read_bytes_numeral)
  note inst = op_eq_content [OF v1 v2]
  have e1: "op_eq example_heap hello (remove_suffix hello_world 6) = Inr True"
    by (simp add: op_eq_def compare_def size_sv_def data_sv_def remove_suffix_def Let_def
        example_defs read_bytes_numeral)
  have e2: "op_eq example_heap hello world = Inr False"
    by (simp add: op_eq_def compare_def size_sv_def data_sv_def example_defs read_bytes_numeral)
  have e3: "op_eq example_heap hello hello_world = Inr False"
    by (simp add: op_eq_def size_sv_def example_defs)
  have p: "ptr hello \<noteq> ptr (remove_suffix hello_world 6)"
    by (simp add: remove_suffix_def Let_def example_defs)
  have refl: "op_eq example_heap hello hello = Inr True"
    using inst by (elim conjE)
  have sym: "op_eq example_heap hello (remove_suffix hello_world 6) =
      op_eq example_heap (remove_suffix hello_world 6) hello"
    using inst by (elim conjE)
  have ne: "op_ne example_heap hello (remove_suffix hello_world 6) = Inr False"
    using e1 by (simp add: op_ne_def)
  show ?thesis
    using v1 v2 p e1 e2 e3 refl ne sym [symmetric] by simp
qed

text \<open>
  C10. Two views of size 0 are equal under \<^verbatim>\<open>operator==\<close>, and not unequal under
  \<^verbatim>\<open>operator!=\<close>, whatever their pointers are and whatever the memory holds:
  \<^verbatim>\<open>compare\<close> is called with the count 0 and reads nothing. In particular the
  default-constructed view, whose pointer is null, equals every cleared view, which keeps
  its old pointer, and equals \<^verbatim>\<open>substr(size())\<close> of every view.
\<close>

theorem empty_views_equal:
  "(size_sv x = 0 \<and> size_sv y = 0 \<longrightarrow> op_eq h x y = Inr True \<and> op_ne h x y = Inr False) \<and>
   op_eq h string_view_default (clear v) = Inr True \<and>
   op_ne h string_view_default (clear v) = Inr False \<and>
   (\<exists>w. substr v (size_sv v) npos = Inr w \<and> size_sv w = 0 \<and>
        op_eq h string_view_default w = Inr True \<and> op_eq h (clear v) w = Inr True)"
proof (intro conjI impI)
  assume "size_sv x = 0 \<and> size_sv y = 0"
  then show "op_eq h x y = Inr True" and "op_ne h x y = Inr False"
    by (simp_all add: op_eq_empty op_ne_def)
next
  have d: "size_sv (string_view_default :: 'a string_view) = 0" and c: "size_sv (clear v) = 0"
    by (simp_all add: size_sv_def string_view_default_def clear_def)
  show "op_eq h string_view_default (clear v) = Inr True"
    and "op_ne h string_view_default (clear v) = Inr False"
    by (simp_all add: op_eq_empty [OF d c] op_ne_def)
  let ?w = "string_view_of_range (data_sv v + size_sv v) 0"
  have w: "size_sv ?w = 0"
    by (simp add: size_sv_def string_view_of_range_def)
  have "substr v (size_sv v) npos = Inr ?w \<and> size_sv ?w = 0 \<and>
      op_eq h string_view_default ?w = Inr True \<and> op_eq h (clear v) ?w = Inr True"
    using w by (simp add: substr_at_size_default op_eq_empty [OF d w] op_eq_empty [OF c w])
  then show "\<exists>w. substr v (size_sv v) npos = Inr w \<and> size_sv w = 0 \<and>
      op_eq h string_view_default w = Inr True \<and> op_eq h (clear v) w = Inr True"
    by blast
qed

theorem empty_views_equal_witness:
  "size_sv (string_view_default :: 64 string_view) = 0 \<and>
   size_sv (clear hello) = 0 \<and>
   ptr (string_view_default :: 64 string_view) = 0 \<and>
   ptr (clear hello) = 12288 \<and>
   op_eq Map.empty string_view_default (clear hello) = Inr True \<and>
   op_ne Map.empty string_view_default (clear hello) = Inr False \<and>
   op_eq example_heap (clear world) (clear hello) = Inr True"
  using empty_views_equal [of string_view_default "clear hello" Map.empty hello]
    empty_views_equal [of "clear world" "clear hello" example_heap hello]
  by (simp add: size_sv_def clear_def string_view_default_def hello_def string_view_of_range_def)

subsection \<open>starts\_with\<close>

text \<open>
  C7. For valid views, \<^verbatim>\<open>v.starts_with(x)\<close> returns true exactly when
  \<^verbatim>\<open>v.size() >= x.size()\<close> and the first \<^verbatim>\<open>x.size()\<close> bytes of \<open>v\<close> are
  the bytes of \<open>x\<close>, offset by offset. An empty \<open>x\<close> makes it true for every
  \<open>v\<close>.
\<close>

theorem starts_with_prefix:
  assumes "valid h v" and "valid h x"
  shows
    "starts_with h v x =
       Inr (size_sv v \<ge> size_sv x \<and> (\<forall>i. i < size_sv x \<longrightarrow> at h v i = at h x i)) \<and>
     (empty_sv x \<longrightarrow> starts_with h v x = Inr True)"
proof -
  have main: "starts_with h v x =
      Inr (size_sv v \<ge> size_sv x \<and> (\<forall>i. i < size_sv x \<longrightarrow> at h v i = at h x i))"
  proof (cases "len x \<le> len v")
    case False
    then show ?thesis
      by (simp add: starts_with_def size_sv_def)
  next
    case True
    obtain vs where vs: "read_bytes h (ptr v) (unat (len x)) = Some vs"
      using valid_prefix [OF assms(1) True] by blast
    obtain xs where xs: "read_bytes h (ptr x) (unat (len x)) = Some xs"
      using assms(2) by (auto simp: valid_def)
    have "(\<forall>i. i < len x \<longrightarrow> h (ptr x + i) = h (ptr v + i)) \<longleftrightarrow>
          (\<forall>i. i < len x \<longrightarrow> at h x i = at h v i)"
      using valid_at [OF assms(2)] by (auto simp: at_eq_iff size_sv_def)
    then have "(\<forall>i. i < len x \<longrightarrow> h (ptr v + i) = h (ptr x + i)) \<longleftrightarrow>
          (\<forall>i. i < len x \<longrightarrow> at h v i = at h x i)"
      by (auto simp: eq_commute)
    then show ?thesis
      using True compare_valid [OF vs xs]
      by (simp add: starts_with_def size_sv_def)
  qed
  moreover have "empty_sv x \<longrightarrow> starts_with h v x = Inr True"
    unfolding main by (simp add: empty_sv_def size_sv_def)
  ultimately show ?thesis
    by blast
qed

theorem starts_with_prefix_witness:
  "valid example_heap hello_world \<and>
   valid example_heap hello \<and>
   valid example_heap world \<and>
   starts_with example_heap hello_world hello = Inr True \<and>
   starts_with example_heap hello_world world = Inr False \<and>
   starts_with example_heap hello hello_world = Inr False \<and>
   empty_sv (clear world) \<and>
   starts_with example_heap hello (clear world) = Inr True"
proof -
  have vc: "valid example_heap (clear world)"
    by (simp add: valid_def clear_def)
  have e: "empty_sv (clear world)"
    by (simp add: empty_sv_def clear_def)
  have s1: "starts_with example_heap hello_world hello = Inr True"
    by (simp add: starts_with_def compare_def example_defs read_bytes_numeral)
  have s2: "starts_with example_heap hello_world world = Inr False"
    by (simp add: starts_with_def compare_def example_defs read_bytes_numeral)
  have s3: "starts_with example_heap hello hello_world = Inr False"
    by (simp add: starts_with_def example_defs)
  have s4: "starts_with example_heap hello (clear world) = Inr True"
    using starts_with_prefix [OF valid_hello vc] e by (elim conjE) simp
  show ?thesis
    using valid_hello_world valid_hello valid_world s1 s2 s3 e s4 by simp
qed

subsection \<open>Owning strings\<close>

text \<open>
  C8. For an owning string \<open>s\<close> laid out in the memory, the view constructed from
  \<open>s\<close> converts back, with \<^verbatim>\<open>to_string\<close>, to a string with the contents of
  \<open>s\<close>: the same length and the same bytes. The view itself is valid and has the size
  of \<open>s\<close>.
\<close>

theorem to_string_of_string:
  fixes s :: "('w::len) std_string"
  assumes "stored h s"
  shows
    "to_string h (string_view_of_string s) = Inr (contents s) \<and>
     valid h (string_view_of_string s) \<and>
     unat (size_sv (string_view_of_string s)) = length (contents s)"
proof -
  have fits: "length (contents s) < 2 ^ LENGTH('w)"
    and bytes: "\<forall>i<length (contents s). h (str_data s + of_nat i) = Some (contents s ! i)"
    using assms by (simp_all add: stored_def list_all_iff)
  have n: "unat (str_size s) = length (contents s)"
    using fits by (simp add: str_size_def unat_of_nat)
  have rd: "read_bytes h (str_data s) (unat (str_size s)) = Some (contents s)"
    using bytes by (simp add: read_bytes_Some_iff n)
  show ?thesis
    using rd n
    by (simp add: to_string_def begin_sv_def end_sv_def string_view_of_string_def valid_def
        size_sv_def)
qed

theorem to_string_of_string_witness:
  "stored example_heap hello_string \<and>
   string_view_of_string hello_string = hello \<and>
   to_string example_heap (string_view_of_string hello_string) = Inr (bytes_of ''hello'')"
proof -
  have st: "stored example_heap hello_string"
    by (simp add: stored_def hello_string_def example_defs upt_rec)
  have v: "string_view_of_string hello_string = hello"
    by (simp add: string_view_of_string_def str_size_def hello_string_def example_defs)
  show ?thesis
    using st v to_string_of_string [OF st] by (simp add: hello_string_def)
qed

subsection \<open>find\<close>

lemma occurs_at_heap:
  assumes "valid h s"
  shows "occurs_at h v s r \<longleftrightarrow>
     r + unat (len s) \<le> unat (len v) \<and>
     (\<forall>j<unat (len s). h (ptr v + of_nat (r + j)) = h (ptr s + of_nat j))"
proof -
  have "at h v (of_nat (r + j)) = at h s (of_nat j) \<longleftrightarrow>
      h (ptr v + of_nat (r + j)) = h (ptr s + of_nat j)" if "j < unat (len s)" for j
  proof -
    from assms that obtain b where "h (ptr s + of_nat j) = Some b"
      by (auto simp: valid_iff)
    then show ?thesis
      by (auto simp: at_def split: option.splits)
  qed
  then show ?thesis
    by (auto simp: occurs_at_def size_sv_def)
qed

lemma of_nat_eq_unat_iff:
  "k \<le> unat (w :: 'w::len word) \<Longrightarrow> (of_nat k = w) = (k = unat w)"
  using le_unat_uoi [of k w] by auto

lemma search_inner_result:
  fixes v s :: "('w::len) string_view"
  assumes "valid h v" and "valid h s"
    and "a + j \<le> unat (len v)" and "j \<le> unat (len s)"
    and "\<forall>j'<j. h (ptr v + of_nat (a + j')) = h (ptr s + of_nat j')"
  shows "search_inner h (ptr v + of_nat a) (ptr v + len v) (ptr s + len s)
           (ptr v + of_nat (a + j)) (ptr s + of_nat j) =
     (if a + unat (len s) \<le> unat (len v) \<and>
         (\<forall>j'<unat (len s). h (ptr v + of_nat (a + j')) = h (ptr s + of_nat j'))
      then Inr (Return (ptr v + of_nat a))
      else if unat (len v) - a < unat (len s) \<and>
         (\<forall>j'<unat (len v) - a. h (ptr v + of_nat (a + j')) = h (ptr s + of_nat j'))
      then Inr (Return (ptr v + len v))
      else Inr Break)"
  using assms(3-5)
proof (induction "unat (len s) - j" arbitrary: j)
  case 0
  then have j: "j = unat (len s)"
    by simp
  then have "ptr s + of_nat j = ptr s + len s"
    by simp
  then show ?case
    using 0 j by (subst search_inner.simps) simp
next
  case (Suc k)
  then have jS: "j < unat (len s)"
    by simp
  then have ne_s: "ptr s + of_nat j \<noteq> ptr s + len s"
    by (simp add: of_nat_eq_unat_iff)
  obtain y where y: "h (ptr s + of_nat j) = Some y"
    using assms(2) jS by (auto simp: valid_iff)
  show ?case
  proof (cases "a + j = unat (len v)")
    case True
    then have "ptr v + of_nat (a + j) = ptr v + len v"
      by simp
    moreover have "unat (len v) - a = j"
      using True by simp
    ultimately show ?thesis
      using ne_s jS Suc.prems True by (subst search_inner.simps) auto
  next
    case False
    then have lt: "a + j < unat (len v)"
      using Suc.prems by simp
    then have ne_v: "ptr v + of_nat (a + j) \<noteq> ptr v + len v"
      using of_nat_eq_unat_iff [of "a + j" "len v"] by simp
    obtain x where x: "h (ptr v + of_nat (a + j)) = Some x"
      using assms(1) lt by (auto simp: valid_iff)
    show ?thesis
    proof (cases "x = y")
      case ne: False
      then have mis: "h (ptr v + of_nat (a + j)) \<noteq> h (ptr s + of_nat j)"
        using x y by simp
      have "\<not> (\<forall>j'<unat (len s). h (ptr v + of_nat (a + j')) = h (ptr s + of_nat j'))"
        using mis jS by blast
      moreover have "\<not> (\<forall>j'<unat (len v) - a. h (ptr v + of_nat (a + j')) = h (ptr s + of_nat j'))"
        using mis lt by (metis less_diff_conv add.commute)
      ultimately show ?thesis
        using ne_s ne_v x y ne by (subst search_inner.simps) simp
    next
      case True
      have step: "search_inner h (ptr v + of_nat a) (ptr v + len v) (ptr s + len s)
           (ptr v + of_nat (a + j)) (ptr s + of_nat j) =
         search_inner h (ptr v + of_nat a) (ptr v + len v) (ptr s + len s)
           (ptr v + of_nat (a + Suc j)) (ptr s + of_nat (Suc j))"
        using ne_s ne_v x y True by (subst search_inner.simps) (simp add: ac_simps)
      have pre: "\<forall>j'<Suc j. h (ptr v + of_nat (a + j')) = h (ptr s + of_nat j')"
        using Suc.prems(3) x y True by (auto simp: less_Suc_eq)
      have k: "k = unat (len s) - Suc j"
        using Suc.hyps(2) by simp
      have b1: "a + Suc j \<le> unat (len v)" and b2: "Suc j \<le> unat (len s)"
        using lt jS by simp_all
      show ?thesis
        unfolding step by (rule Suc.hyps(1) [OF k b1 b2 pre])
    qed
  qed
qed


text \<open>
  One run of the inner loop from the start of the needle: it returns \<^verbatim>\<open>first\<close>
  exactly when the needle occurs there, \<^verbatim>\<open>last\<close> exactly when the haystack ends
  inside a needle that matched so far, and breaks otherwise.
\<close>

lemma search_inner_start:
  fixes v s :: "('w::len) string_view"
  assumes "valid h v" and "valid h s" and "a \<le> unat (len v)"
  shows "search_inner h (ptr v + of_nat a) (cend v) (cend s) (ptr v + of_nat a) (cbegin s) =
     (if occurs_at h v s a then Inr (Return (ptr v + of_nat a))
      else if unat (len v) - a < unat (len s) \<and>
         (\<forall>j'<unat (len v) - a. h (ptr v + of_nat (a + j')) = h (ptr s + of_nat j'))
      then Inr (Return (cend v))
      else Inr Break)"
proof -
  have "a + 0 \<le> unat (len v)" and "0 \<le> unat (len s)"
    and "\<forall>j'<0. h (ptr v + of_nat (a + j')) = h (ptr s + of_nat j')"
    using assms(3) by simp_all
  from search_inner_result [OF assms(1,2) this]
  have "search_inner h (ptr v + of_nat a) (ptr v + len v) (ptr s + len s) (ptr v + of_nat a) (ptr s) =
     (if a + unat (len s) \<le> unat (len v) \<and>
         (\<forall>j'<unat (len s). h (ptr v + of_nat (a + j')) = h (ptr s + of_nat j'))
      then Inr (Return (ptr v + of_nat a))
      else if unat (len v) - a < unat (len s) \<and>
         (\<forall>j'<unat (len v) - a. h (ptr v + of_nat (a + j')) = h (ptr s + of_nat j'))
      then Inr (Return (ptr v + len v))
      else Inr Break)"
    by (simp only: add_0_right semiring_1_class.of_nat_0)
  then show ?thesis
    unfolding occurs_at_heap [OF assms(2)] cend_def cbegin_def .
qed

lemma search_found:
  fixes v s :: "('w::len) string_view"
  assumes "valid h v" and "valid h s"
    and "a \<le> r" and "occurs_at h v s r"
    and "\<forall>r'. a \<le> r' \<and> r' < r \<longrightarrow> \<not> occurs_at h v s r'"
  shows "search h (ptr v + of_nat a) (cend v) (cbegin s) (cend s) = Inr (ptr v + of_nat r)"
  using assms(3,5)
proof (induction "r - a" arbitrary: a)
  case 0
  then have "a = r"
    by simp
  moreover have "r \<le> unat (len v)"
    using assms(4) by (simp add: occurs_at_def size_sv_def)
  ultimately show ?case
    using assms(4) search_inner_start [OF assms(1,2), of r]
    by (subst search.simps) simp
next
  case (Suc k)
  then have ar: "a < r"
    by simp
  have fit: "r + unat (len s) \<le> unat (len v)"
    using assms(4) by (simp add: occurs_at_def size_sv_def)
  have no: "\<not> occurs_at h v s a"
    using Suc.prems(2) ar by simp
  have room: "\<not> unat (len v) - a < unat (len s)"
    using fit ar by simp
  have inner: "search_inner h (ptr v + of_nat a) (cend v) (cend s) (ptr v + of_nat a) (cbegin s) =
      Inr Break"
    using search_inner_start [OF assms(1,2), of a] fit ar no room by simp
  have step: "search h (ptr v + of_nat a) (cend v) (cbegin s) (cend s) =
      search h (ptr v + of_nat (Suc a)) (cend v) (cbegin s) (cend s)"
    using inner by (subst search.simps) (simp add: ac_simps)
  have k: "k = r - Suc a"
    using Suc.hyps(2) by simp
  have le: "Suc a \<le> r"
    using ar by simp
  have rest: "\<forall>r'. Suc a \<le> r' \<and> r' < r \<longrightarrow> \<not> occurs_at h v s r'"
    using Suc.prems(2) by simp
  show ?case
    unfolding step by (rule Suc.hyps(1) [OF k le rest])
qed

lemma search_not_found:
  fixes v s :: "('w::len) string_view"
  assumes "valid h v" and "valid h s"
    and "a \<le> unat (len v)"
    and "\<forall>r. a \<le> r \<longrightarrow> \<not> occurs_at h v s r"
  shows "search h (ptr v + of_nat a) (cend v) (cbegin s) (cend s) = Inr (cend v)"
  using assms(3,4)
proof (induction "unat (len v) - a" arbitrary: a)
  case 0
  then have a: "a = unat (len v)"
    by simp
  have no: "\<not> occurs_at h v s a"
    using 0 by simp
  then have "unat (len s) \<noteq> 0"
    using a by (auto simp: occurs_at_heap [OF assms(2)])
  then have "search_inner h (ptr v + of_nat a) (cend v) (cend s) (ptr v + of_nat a) (cbegin s) =
      Inr (Return (cend v))"
    using search_inner_start [OF assms(1,2), of a] no a by simp
  then show ?case
    by (subst search.simps) simp
next
  case (Suc k)
  then have lt: "a < unat (len v)"
    by simp
  have no: "\<not> occurs_at h v s a"
    using Suc.prems(2) by simp
  have k: "k = unat (len v) - Suc a"
    using Suc.hyps(2) by simp
  have le: "Suc a \<le> unat (len v)"
    using lt by simp
  have rest: "\<forall>r. Suc a \<le> r \<longrightarrow> \<not> occurs_at h v s r"
    using Suc.prems(2) by simp
  note IH = Suc.hyps(1) [OF k le rest]
  consider
    (exhausted) "search_inner h (ptr v + of_nat a) (cend v) (cend s) (ptr v + of_nat a) (cbegin s) =
      Inr (Return (cend v))"
    | (break) "search_inner h (ptr v + of_nat a) (cend v) (cend s) (ptr v + of_nat a) (cbegin s) =
      Inr Break"
    using search_inner_start [OF assms(1,2), of a] no lt by (simp split: if_splits)
  then show ?case
  proof cases
    case exhausted
    then show ?thesis
      by (subst search.simps) simp
  next
    case break
    then have "search h (ptr v + of_nat a) (cend v) (cbegin s) (cend s) =
        search h (ptr v + of_nat (Suc a)) (cend v) (cbegin s) (cend s)"
      by (subst search.simps) (simp add: ac_simps)
    then show ?thesis
      using IH by simp
  qed
qed


text \<open>
  The result of \<^verbatim>\<open>find\<close> on valid views, by cases: the first occurrence at or after
  \<open>pos\<close> when there is one, \<^verbatim>\<open>npos\<close> when there is none.
\<close>

lemma find_sv_found:
  fixes v s :: "('w::len) string_view"
  assumes "valid h v" and "valid h s"
    and "unat pos \<le> r" and "occurs_at h v s r"
    and "\<forall>r'. unat pos \<le> r' \<and> r' < r \<longrightarrow> \<not> occurs_at h v s r'"
  shows "find_sv h v s pos = Inr (of_nat r)" and "unat (of_nat r :: 'w word) = r"
proof -
  have fit: "r + unat (len s) \<le> unat (len v)"
    using assms(4) by (simp add: occurs_at_def size_sv_def)
  then have rV: "r \<le> unat (len v)"
    by simp
  then show r: "unat (of_nat r :: 'w word) = r"
    by (rule le_unat_uoi)
  have pos: "\<not> size_sv v < pos"
    using assms(3) rV by (simp add: size_sv_def word_less_nat_alt)
  show "find_sv h v s pos = Inr (of_nat r)"
  proof (cases "empty_sv s")
    case True
    then have "occurs_at h v s (unat pos)"
      using pos by (simp add: occurs_at_def empty_sv_def size_sv_def word_less_nat_alt)
    then have "r = unat pos"
      using assms(3,5) by (metis le_neq_implies_less order_refl)
    then show ?thesis
      using True pos by (simp add: find_sv_def)
  next
    case False
    then have "unat (len s) \<noteq> 0"
      by (simp add: empty_sv_def unat_eq_zero)
    then have "r < unat (len v)"
      using fit by simp
    then have ne: "ptr v + of_nat r \<noteq> cend v"
      using of_nat_eq_unat_iff [of r "len v"] by (simp add: cend_def)
    have "search h (ptr v + of_nat (unat pos)) (cend v) (cbegin s) (cend s) = Inr (ptr v + of_nat r)"
      by (rule search_found [OF assms])
    then show ?thesis
      using False pos ne by (simp add: find_sv_def cbegin_def)
  qed
qed

lemma find_sv_not_found:
  fixes v s :: "('w::len) string_view"
  assumes "valid h v" and "valid h s"
    and "\<forall>r. unat pos \<le> r \<longrightarrow> \<not> occurs_at h v s r"
  shows "find_sv h v s pos = Inr npos"
proof (cases "size_sv v < pos")
  case True
  then show ?thesis
    by (simp add: find_sv_def)
next
  case False
  then have le: "unat pos \<le> unat (len v)"
    by (simp add: size_sv_def word_less_nat_alt)
  have "\<not> occurs_at h v s (unat pos)"
    using assms(3) by simp
  then have ne: "\<not> empty_sv s"
    using le by (auto simp: occurs_at_def empty_sv_def size_sv_def)
  have "search h (ptr v + of_nat (unat pos)) (cend v) (cbegin s) (cend s) = Inr (cend v)"
    by (rule search_not_found [OF assms(1,2) le assms(3)])
  then show ?thesis
    using False ne by (simp add: find_sv_def cbegin_def)
qed

lemma occurs_at_bound:
  "occurs_at h v s r \<Longrightarrow> r \<le> unat (size_sv v)"
  by (simp add: occurs_at_def)

text \<open>
  C1. For valid views, \<^verbatim>\<open>v.find(s, pos)\<close> returns a value \<open>res\<close> without an invalid
  read. When the needle occurs at some offset at or after \<open>pos\<close>, \<open>res\<close> is the lowest
  such offset: the needle occurs at \<open>res\<close>, \<open>res\<close> is not below \<open>pos\<close>, and no
  occurrence at or after \<open>pos\<close> is below \<open>res\<close>. When there is no such offset,
  \<open>res\<close> is \<^verbatim>\<open>npos\<close>; in particular when \<^verbatim>\<open>pos > size()\<close>.
\<close>

theorem find_lowest_occurrence:
  fixes v s :: "('w::len) string_view"
  assumes "valid h v" and "valid h s"
  shows
    "\<exists>res. find_sv h v s pos = Inr res \<and>
       ((\<exists>r. unat pos \<le> r \<and> occurs_at h v s r) \<longrightarrow>
          unat pos \<le> unat res \<and> occurs_at h v s (unat res) \<and>
          (\<forall>r. unat pos \<le> r \<and> occurs_at h v s r \<longrightarrow> unat res \<le> r)) \<and>
       ((\<forall>r. unat pos \<le> r \<longrightarrow> \<not> occurs_at h v s r) \<longrightarrow> res = npos) \<and>
       (size_sv v < pos \<longrightarrow> res = npos)"
proof (cases "\<exists>r. unat pos \<le> r \<and> occurs_at h v s r")
  case True
  define r where "r = (LEAST r. unat pos \<le> r \<and> occurs_at h v s r)"
  have r: "unat pos \<le> r \<and> occurs_at h v s r"
    unfolding r_def using True by (rule LeastI_ex)
  have least: "r \<le> r'" if "unat pos \<le> r' \<and> occurs_at h v s r'" for r'
    unfolding r_def using that by (rule Least_le)
  then have below: "\<forall>r'. unat pos \<le> r' \<and> r' < r \<longrightarrow> \<not> occurs_at h v s r'"
    by (meson not_less)
  have res: "find_sv h v s pos = Inr (of_nat r)" and u: "unat (of_nat r :: 'w word) = r"
    using find_sv_found [OF assms _ _ below] r by blast+
  have "\<not> size_sv v < pos"
    using r occurs_at_bound [of h v s r] by (simp add: word_less_nat_alt)
  then show ?thesis
    using res u r least True by auto
next
  case False
  then have none: "\<forall>r. unat pos \<le> r \<longrightarrow> \<not> occurs_at h v s r"
    by blast
  have "find_sv h v s pos = Inr npos"
    by (rule find_sv_not_found [OF assms none])
  then show ?thesis
    using none by auto
qed


lemma occurs_at_list_all:
  "occurs_at h v s r \<longleftrightarrow>
     r + unat (size_sv s) \<le> unat (size_sv v) \<and>
     list_all (\<lambda>j. at h v (of_nat (r + j)) = at h s (of_nat j)) [0..<unat (size_sv s)]"
  by (auto simp: occurs_at_def list_all_iff)

theorem find_lowest_occurrence_witness:
  "valid example_heap hello_world \<and>
   valid example_heap world \<and>
   occurs_at example_heap hello_world world 6 \<and>
   find_sv example_heap hello_world world 0 = Inr 6 \<and>
   \<not> occurs_at example_heap hello_world world 3 \<and>
   find_sv example_heap hello_world world 7 = Inr npos \<and>
   find_sv example_heap hello_world world 12 = Inr npos"
proof -
  note v1 = valid_hello_world and v2 = valid_world
  have occ: "occurs_at example_heap hello_world world 6"
    by (simp add: occurs_at_list_all size_sv_def at_def example_defs upt_rec)
  have f0: "find_sv example_heap hello_world world 0 = Inr 6"
    by (simp add: find_sv_def size_sv_def empty_sv_def cbegin_def cend_def example_defs
        search.simps search_inner.simps)
  have f7: "find_sv example_heap hello_world world 7 = Inr npos"
    by (simp add: find_sv_def size_sv_def empty_sv_def cbegin_def cend_def example_defs
        search.simps search_inner.simps)
  have f12: "find_sv example_heap hello_world world 12 = Inr npos"
    by (simp add: find_sv_def size_sv_def example_defs)
  from find_lowest_occurrence [OF v1 v2, of 0] f0
  have "(\<exists>r. unat (0 :: 64 word) \<le> r \<and> occurs_at example_heap hello_world world r) \<longrightarrow>
      (\<forall>r. unat (0 :: 64 word) \<le> r \<and> occurs_at example_heap hello_world world r \<longrightarrow>
         unat (6 :: 64 word) \<le> r)"
    by auto
  with occ have "\<forall>r. occurs_at example_heap hello_world world r \<longrightarrow> 6 \<le> r"
    by auto
  then have n3: "\<not> occurs_at example_heap hello_world world 3"
    by auto
  show ?thesis
    using v1 v2 occ f0 n3 f7 f12 by simp
qed

end
